theory Spec2Isabelle
  imports Main "HOL-Library.Sublist"
begin

section \<open>Data model of the agentic search service\<close>

text \<open>
  A contact is the dictionary produced by \<^verbatim>\<open>Contact.model_dump()\<close>
  (scrapers/schemas.py). The fields read by the service are kept; every
  \<^verbatim>\<open>Optional[str]\<close> field is a \<open>string option\<close>, so that
  \<^verbatim>\<open>contact.get("email")\<close> is the field itself.
\<close>

record contact =
  c_id :: "string option"
  c_name :: string
  c_title :: "string option"
  c_company :: "string option"
  c_email :: "string option"
  c_linkedin_url :: "string option"
  c_phone :: "string option"

text \<open>
  A search query is the dictionary of search parameters that the planner
  returns; the service reads it with \<^verbatim>\<open>query_params.get(...)\<close>.
\<close>

record query =
  q_titles :: "string list option"
  q_keywords :: "string list option"
  q_person_seniorities :: "string list option"
  q_organization_num_employees_ranges :: "string list option"
  q_reasoning :: "string option"

section \<open>\<^verbatim>\<open>_deduplicate_contacts\<close>\<close>

text \<open>The three sets \<^verbatim>\<open>seen_emails\<close>, \<^verbatim>\<open>seen_linkedin\<close>, \<^verbatim>\<open>seen_ids\<close>.\<close>

record seen =
  seen_emails :: "string set"
  seen_linkedin :: "string set"
  seen_ids :: "string set"

definition empty_seen :: seen where
  "empty_seen = \<lparr>seen_emails = {}, seen_linkedin = {}, seen_ids = {}\<rparr>"

definition placeholder_emails :: "string set" where
  "placeholder_emails =
     {''email_not_unlocked@domain.com'',
      ''email_not_available@domain.com'',
      ''noemail@domain.com''}"

text \<open>Python truthiness of an optional string: \<^verbatim>\<open>None\<close> and \<^verbatim>\<open>""\<close> are false.\<close>

fun truthy :: "string option \<Rightarrow> bool" where
  "truthy None = False"
| "truthy (Some s) = (s \<noteq> [])"

text \<open>\<^verbatim>\<open>v in S\<close> for an optional string and a set of strings.\<close>

fun py_in :: "string option \<Rightarrow> string set \<Rightarrow> bool" where
  "py_in None S = False"
| "py_in (Some s) S = (s \<in> S)"

text \<open>\<^verbatim>\<open>if v: S.add(v)\<close>\<close>

fun add_if :: "string option \<Rightarrow> string set \<Rightarrow> string set" where
  "add_if None S = S"
| "add_if (Some s) S = (if s \<noteq> [] then insert s S else S)"

text \<open>\<^verbatim>\<open>if email in placeholder_emails: email = None\<close>\<close>

definition ignore_placeholder :: "string option \<Rightarrow> string option" where
  "ignore_placeholder email = (if py_in email placeholder_emails then None else email)"

definition is_duplicate :: "seen \<Rightarrow> contact \<Rightarrow> bool" where
  "is_duplicate s contact =
     (let email = ignore_placeholder (c_email contact);
          linkedin = c_linkedin_url contact;
          contact_id = c_id contact
      in if truthy email \<and> py_in email (seen_emails s) then True
         else if truthy linkedin \<and> py_in linkedin (seen_linkedin s) then True
         else if truthy contact_id \<and> py_in contact_id (seen_ids s) then True
         else False)"

definition add_to_seen :: "seen \<Rightarrow> contact \<Rightarrow> seen" where
  "add_to_seen s contact =
     (let email = ignore_placeholder (c_email contact);
          linkedin = c_linkedin_url contact;
          contact_id = c_id contact
      in \<lparr>seen_emails = add_if email (seen_emails s),
          seen_linkedin = add_if linkedin (seen_linkedin s),
          seen_ids = add_if contact_id (seen_ids s)\<rparr>)"

text \<open>
  The \<^verbatim>\<open>for contact in contacts\<close> loop, with the seen sets and the list
  \<^verbatim>\<open>unique\<close> as loop state.
\<close>

fun dedup_loop :: "seen \<Rightarrow> contact list \<Rightarrow> contact list \<Rightarrow> contact list" where
  "dedup_loop s unique [] = unique"
| "dedup_loop s unique (contact # contacts) =
     (if \<not> is_duplicate s contact
      then dedup_loop (add_to_seen s contact) (unique @ [contact]) contacts
      else dedup_loop s unique contacts)"

definition deduplicate_contacts :: "contact list \<Rightarrow> contact list" where
  "deduplicate_contacts contacts = dedup_loop empty_seen [] contacts"

subsection \<open>Notions used to state the properties of deduplication\<close>

text \<open>The seen sets as they stand after the loop has run over a list.\<close>

fun seen_after :: "seen \<Rightarrow> contact list \<Rightarrow> seen" where
  "seen_after s [] = s"
| "seen_after s (contact # contacts) =
     (if \<not> is_duplicate s contact
      then seen_after (add_to_seen s contact) contacts
      else seen_after s contacts)"

text \<open>
  The identifiers of a record that deduplication can match on: the email
  unless empty or a placeholder, the profile URL unless empty, the id unless
  empty.
\<close>

definition usable :: "string option \<Rightarrow> string set" where
  "usable v = (case v of None \<Rightarrow> {} | Some s \<Rightarrow> if s \<noteq> [] then {s} else {})"

definition email_ids :: "contact \<Rightarrow> string set" where
  "email_ids c = usable (ignore_placeholder (c_email c))"

definition linkedin_ids :: "contact \<Rightarrow> string set" where
  "linkedin_ids c = usable (c_linkedin_url c)"

definition id_ids :: "contact \<Rightarrow> string set" where
  "id_ids c = usable (c_id c)"

definition shares_email :: "contact \<Rightarrow> contact \<Rightarrow> bool" where
  "shares_email a b = (email_ids a \<inter> email_ids b \<noteq> {})"

definition shares_linkedin :: "contact \<Rightarrow> contact \<Rightarrow> bool" where
  "shares_linkedin a b = (linkedin_ids a \<inter> linkedin_ids b \<noteq> {})"

definition shares_id :: "contact \<Rightarrow> contact \<Rightarrow> bool" where
  "shares_id a b = (id_ids a \<inter> id_ids b \<noteq> {})"

definition shares_identifier :: "contact \<Rightarrow> contact \<Rightarrow> bool" where
  "shares_identifier a b = (shares_email a b \<or> shares_linkedin a b \<or> shares_id a b)"

definition no_identifier :: "contact \<Rightarrow> bool" where
  "no_identifier c = (email_ids c = {} \<and> linkedin_ids c = {} \<and> id_ids c = {})"

definition has_placeholder_email :: "contact \<Rightarrow> bool" where
  "has_placeholder_email c = py_in (c_email c) placeholder_emails"

text \<open>
  The identity key in the words of the specification: the non-placeholder
  email, else the profile URL, else the provider-assigned id, else none.
\<close>

datatype identity_key = EmailKey string | UrlKey string | IdKey string

definition identity_key :: "contact \<Rightarrow> identity_key option" where
  "identity_key c =
     (if truthy (ignore_placeholder (c_email c))
        then map_option EmailKey (ignore_placeholder (c_email c))
      else if truthy (c_linkedin_url c) then map_option UrlKey (c_linkedin_url c)
      else if truthy (c_id c) then map_option IdKey (c_id c)
      else None)"

section \<open>The external collaborators\<close>

text \<open>
  The service talks to two external services: the language model
  (\<^verbatim>\<open>self.claude.messages.create\<close>) and the contact-search provider
  (\<^verbatim>\<open>self.apollo.search_people\<close>). Every call is logged; a reply may depend on
  the whole log of earlier calls, so that any sequence of replies is an
  environment.
\<close>

record round_record =
  r_iteration :: nat
  r_query_params :: query
  r_results_count :: nat
  r_companies_found :: nat

text \<open>
  The prompts carry the values that the f-strings of the source interpolate:
  the generation prompt the user query and the product description; the
  expansion prompt also the sample contacts and the search history; the
  refinement prompt the failed query and the search history.
\<close>

datatype prompt =
  GeneratePrompt string string
| ExpandPrompt string string "contact list" "round_record list"
| RefinePrompt string string query "round_record list"

datatype call =
  ClaudeCall prompt
| ApolloCall query int

text \<open>
  What a call of the language model gives: an exception of the client, a text
  that \<^verbatim>\<open>json.loads\<close> rejects, or a text that parses to a list of queries
  (the return type that the source annotates).
\<close>

datatype claude_reply = ApiError | InvalidJson | QueryList "query list"

record env =
  messages_create :: "call list \<Rightarrow> prompt \<Rightarrow> claude_reply"
  search_people :: "call list \<Rightarrow> query \<Rightarrow> int \<Rightarrow> contact list option"

datatype run_error = ClaudeApiError

section \<open>The planner calls\<close>

definition fallback_query :: query where
  "fallback_query =
     \<lparr>q_titles = Some [''CEO'', ''CTO'', ''VP''],
      q_keywords = Some [],
      q_person_seniorities = Some [''c_suite'', ''vp''],
      q_organization_num_employees_ranges = Some [],
      q_reasoning = Some ''Fallback broad search''\<rparr>"

text \<open>
  \<^verbatim>\<open>_generate_search_queries\<close>: the call of the model is outside the
  \<^verbatim>\<open>try\<close>, so its exception reaches the caller; only a text that does not
  parse gives the fallback query.
\<close>

definition generate_search_queries ::
  "env \<Rightarrow> call list \<Rightarrow> string \<Rightarrow> string \<Rightarrow> (run_error + query list) \<times> call list" where
  "generate_search_queries e log user_query product_description =
     (let prompt = GeneratePrompt user_query product_description;
          log' = log @ [ClaudeCall prompt]
      in case messages_create e log prompt of
           ApiError \<Rightarrow> (Inl ClaudeApiError, log')
         | InvalidJson \<Rightarrow> (Inr [fallback_query], log')
         | QueryList queries \<Rightarrow> (Inr queries, log'))"

text \<open>\<^verbatim>\<open>_learn_and_expand\<close>: every exception is caught and gives the empty list.\<close>

definition learn_and_expand ::
  "env \<Rightarrow> call list \<Rightarrow> string \<Rightarrow> string \<Rightarrow> contact list \<Rightarrow> round_record list
     \<Rightarrow> query list \<times> call list" where
  "learn_and_expand e log user_query product_description successful_contacts search_history =
     (let sample_contacts = take 5 successful_contacts;
          prompt = ExpandPrompt user_query product_description sample_contacts search_history;
          log' = log @ [ClaudeCall prompt]
      in case messages_create e log prompt of
           QueryList queries \<Rightarrow> (queries, log')
         | _ \<Rightarrow> ([], log'))"

text \<open>\<^verbatim>\<open>_refine_failed_search\<close>: every exception is caught and gives the empty list.\<close>

definition refine_failed_search ::
  "env \<Rightarrow> call list \<Rightarrow> query \<Rightarrow> round_record list \<Rightarrow> string \<Rightarrow> string
     \<Rightarrow> query list \<times> call list" where
  "refine_failed_search e log failed_query search_history user_query product_description =
     (let prompt = RefinePrompt user_query product_description failed_query search_history;
          log' = log @ [ClaudeCall prompt]
      in case messages_create e log prompt of
           QueryList queries \<Rightarrow> (queries, log')
         | _ \<Rightarrow> ([], log'))"

section \<open>\<^verbatim>\<open>_execute_apollo_search\<close>\<close>

text \<open>
  \<^verbatim>\<open>list(set([c.get("company") for c in contacts if c.get("company")]))\<close>:
  the distinct non-empty company names. Python leaves the order of the list
  open; the caller uses its length and its elements only.
\<close>

definition companies_of :: "contact list \<Rightarrow> string list" where
  "companies_of contacts =
     remdups (concat (map (\<lambda>c. case c_company c of
                                  None \<Rightarrow> []
                                | Some n \<Rightarrow> if n \<noteq> [] then [n] else []) contacts))"

definition execute_apollo_search ::
  "env \<Rightarrow> call list \<Rightarrow> query \<Rightarrow> int \<Rightarrow> (contact list \<times> string list) \<times> call list" where
  "execute_apollo_search e log query_params max_results =
     (let log' = log @ [ApolloCall query_params max_results]
      in case search_people e log query_params max_results of
           Some contacts \<Rightarrow> ((contacts, companies_of contacts), log')
         | None \<Rightarrow> (([], []), log'))"

section \<open>\<^verbatim>\<open>run_agentic_search\<close>\<close>

record config =
  user_query :: string
  product_description :: string
  max_iterations :: int
  min_results :: int
  max_results_per_query :: int

text \<open>
  The state of the loop. The \<^verbatim>\<open>for\<close> statement walks the list
  \<^verbatim>\<open>search_queries\<close> by position while the body extends it; \<open>pos\<close> is
  that position.
\<close>

record run_state =
  search_queries :: "query list"
  pos :: nat
  all_contacts :: "contact list"
  all_companies :: "string set"
  search_history :: "round_record list"
  iteration :: nat
  calls :: "call list"

definition init_state :: "query list \<Rightarrow> call list \<Rightarrow> run_state" where
  "init_state queries log =
     \<lparr>search_queries = queries, pos = 0, all_contacts = [], all_companies = {},
      search_history = [], iteration = 0, calls = log\<rparr>"

text \<open>One pass through the body of the loop, for the query \<open>query_params\<close>.\<close>

definition round_body :: "env \<Rightarrow> config \<Rightarrow> run_state \<Rightarrow> query \<Rightarrow> run_state" where
  "round_body e cfg st query_params =
     (let iteration' = iteration st + 1;
          ((contacts, companies), log1) =
             execute_apollo_search e (calls st) query_params (max_results_per_query cfg);
          search_history' = search_history st @
             [\<lparr>r_iteration = iteration', r_query_params = query_params,
               r_results_count = length contacts, r_companies_found = length companies\<rparr>];
          st1 = st\<lparr>pos := pos st + 1, search_history := search_history',
                   iteration := iteration', calls := log1\<rparr>
      in if contacts \<noteq> [] then
           (let st2 = st1\<lparr>all_contacts := all_contacts st @ contacts,
                           all_companies := all_companies st \<union> set companies\<rparr>
            in if int (length (all_contacts st2)) < min_results cfg
                  \<and> int iteration' < max_iterations cfg then
                 (let (expansion_queries, log2) =
                        learn_and_expand e log1 (user_query cfg) (product_description cfg)
                          contacts search_history'
                  in if expansion_queries \<noteq> []
                     then st2\<lparr>search_queries := search_queries st @ expansion_queries,
                              calls := log2\<rparr>
                     else st2\<lparr>calls := log2\<rparr>)
               else st2)
         else
           (if int iteration' < max_iterations cfg then
              (let (refined_queries, log2) =
                     refine_failed_search e log1 query_params search_history'
                       (user_query cfg) (product_description cfg)
               in if refined_queries \<noteq> []
                  then st1\<lparr>search_queries := search_queries st @ refined_queries,
                           calls := log2\<rparr>
                  else st1\<lparr>calls := log2\<rparr>)
            else st1))"

text \<open>
  The head of the loop: the next query of the list if there is one, and the
  \<^verbatim>\<open>break\<close> when enough contacts have been collected.
\<close>

definition loop_step :: "env \<Rightarrow> config \<Rightarrow> run_state \<Rightarrow> run_state option" where
  "loop_step e cfg st =
     (case drop (pos st) (search_queries st) of
        [] \<Rightarrow> None
      | query_params # _ \<Rightarrow>
          if int (length (all_contacts st)) \<ge> min_results cfg then None
          else Some (round_body e cfg st query_params))"

function run_loop :: "env \<Rightarrow> config \<Rightarrow> run_state \<Rightarrow> run_state" where
  "run_loop e cfg st =
     (case loop_step e cfg st of
        None \<Rightarrow> st
      | Some st' \<Rightarrow> run_loop e cfg st')"
  by pat_completeness auto
termination
proof (relation "inv_image (less_than <*lex*> less_than)
    (\<lambda>(e, cfg, st). (nat (max_iterations cfg - int (iteration st)),
                      length (search_queries st) - pos st))")
  show "wf (inv_image (less_than <*lex*> less_than)
    (\<lambda>(e, cfg, st). (nat (max_iterations cfg - int (iteration st)),
                      length (search_queries st) - pos st)))"
    by (intro wf_inv_image wf_lex_prod wf_less_than)
next
  fix e :: env and cfg st st'
  assume "loop_step e cfg st = Some st'"
  then obtain q rest where d: "drop (pos st) (search_queries st) = q # rest"
    and st': "st' = round_body e cfg st q"
    by (auto simp: loop_step_def split: list.splits if_splits)
  have p: "pos st < length (search_queries st)"
  proof (rule ccontr)
    assume "\<not> pos st < length (search_queries st)"
    then have "drop (pos st) (search_queries st) = []" by simp
    with d show False by simp
  qed
  have c: "iteration st' = iteration st + 1" "pos st' = pos st + 1"
    unfolding st' by (simp_all add: round_body_def Let_def split: prod.splits)
  have f: "search_queries st' = search_queries st"
    if "\<not> int (iteration st + 1) < max_iterations cfg"
    using that unfolding st' by (simp add: round_body_def Let_def split: prod.splits)
  show "((e, cfg, st'), (e, cfg, st)) \<in> inv_image (less_than <*lex*> less_than)
    (\<lambda>(e, cfg, st). (nat (max_iterations cfg - int (iteration st)),
                      length (search_queries st) - pos st))"
  proof (cases "int (iteration st + 1) < max_iterations cfg")
    case True
    then show ?thesis using c by simp
  next
    case False
    then show ?thesis using c f [OF False] p by auto
  qed
qed

declare run_loop.simps [simp del]

text \<open>
  The returned dictionary. The set \<^verbatim>\<open>all_companies\<close> is returned as a list
  in an order that Python leaves open, so it stays a set here; the float
  \<^verbatim>\<open>avg_results_per_query\<close> of the statistics is left out.
\<close>

record stats =
  total_contacts :: nat
  total_companies :: nat
  queries_executed :: nat

record search_result =
  contacts :: "contact list"
  companies :: "string set"
  result_history :: "round_record list"
  iterations :: nat
  result_stats :: stats

definition run_agentic_search :: "env \<Rightarrow> config \<Rightarrow> (run_error + search_result) \<times> call list" where
  "run_agentic_search e cfg =
     (case generate_search_queries e [] (user_query cfg) (product_description cfg) of
        (Inl err, log) \<Rightarrow> (Inl err, log)
      | (Inr queries, log) \<Rightarrow>
          (let st = run_loop e cfg (init_state queries log);
               unique_contacts = deduplicate_contacts (all_contacts st)
           in (Inr \<lparr>contacts = unique_contacts,
                    companies = all_companies st,
                    result_history = search_history st,
                    iterations = iteration st,
                    result_stats = \<lparr>total_contacts = length unique_contacts,
                                    total_companies = card (all_companies st),
                                    queries_executed = length (search_history st)\<rparr>\<rparr>,
               calls st)))"

section \<open>Notions used to state the properties of the run\<close>

text \<open>
  The state after exactly \<open>k\<close> further passes through the loop, if the loop
  makes that many.
\<close>

fun after_rounds :: "env \<Rightarrow> config \<Rightarrow> nat \<Rightarrow> run_state \<Rightarrow> run_state option" where
  "after_rounds e cfg 0 st = Some st"
| "after_rounds e cfg (Suc k) st =
     (case loop_step e cfg st of
        None \<Rightarrow> None
      | Some st' \<Rightarrow> after_rounds e cfg k st')"

text \<open>
  What every state of the loop satisfies: the position in the list, the
  number of history entries and the counter agree; the queries of the history
  are the part of the list walked so far; the result counts of the history add
  up to the number of collected contacts.
\<close>

definition loop_inv :: "run_state \<Rightarrow> bool" where
  "loop_inv st =
     (pos st = iteration st \<and> length (search_history st) = iteration st
      \<and> map r_query_params (search_history st) = take (pos st) (search_queries st)
      \<and> sum_list (map r_results_count (search_history st)) = length (all_contacts st))"

fun is_followup :: "prompt \<Rightarrow> bool" where
  "is_followup (GeneratePrompt _ _) = False"
| "is_followup (ExpandPrompt _ _ _ _) = True"
| "is_followup (RefinePrompt _ _ _ _) = True"

text \<open>The queries that a planner call hands to the loop, given the model's reply.\<close>

fun queries_of :: "claude_reply \<Rightarrow> query list" where
  "queries_of (QueryList qs) = qs"
| "queries_of _ = []"

section \<open>Concrete inputs\<close>

definition ann_work :: contact where
  "ann_work =
     \<lparr>c_id = None, c_name = ''Ann Lee'', c_title = Some ''CTO'', c_company = Some ''Acme'',
      c_email = Some ''ann@acme.com'', c_linkedin_url = Some ''https://linkedin.com/in/annlee'',
      c_phone = None\<rparr>"

definition ann_private :: contact where
  "ann_private =
     \<lparr>c_id = None, c_name = ''Ann Lee'', c_title = Some ''CTO'', c_company = Some ''Acme'',
      c_email = Some ''ann@gmail.com'', c_linkedin_url = Some ''https://linkedin.com/in/annlee'',
      c_phone = None\<rparr>"

definition ann_mail_only :: contact where
  "ann_mail_only =
     \<lparr>c_id = None, c_name = ''A. Lee'', c_title = None, c_company = None,
      c_email = Some ''ann@gmail.com'', c_linkedin_url = None, c_phone = None\<rparr>"

definition bob_anonymous :: contact where
  "bob_anonymous =
     \<lparr>c_id = None, c_name = ''Bob Ray'', c_title = Some ''CEO'', c_company = Some ''Initech'',
      c_email = None, c_linkedin_url = None, c_phone = None\<rparr>"

definition locked_carl :: contact where
  "locked_carl =
     \<lparr>c_id = Some ''a1'', c_name = ''Carl Poe'', c_title = None, c_company = Some ''Globex'',
      c_email = Some ''email_not_unlocked@domain.com'',
      c_linkedin_url = Some ''https://linkedin.com/in/carlpoe'', c_phone = None\<rparr>"

definition locked_dora :: contact where
  "locked_dora =
     \<lparr>c_id = Some ''a2'', c_name = ''Dora Kim'', c_title = None, c_company = Some ''Globex'',
      c_email = Some ''email_not_unlocked@domain.com'',
      c_linkedin_url = Some ''https://linkedin.com/in/dorakim'', c_phone = None\<rparr>"

definition mk_query :: "string \<Rightarrow> query" where
  "mk_query t =
     \<lparr>q_titles = Some [t], q_keywords = None, q_person_seniorities = None,
      q_organization_num_employees_ranges = None, q_reasoning = None\<rparr>"

definition five_queries :: "query list" where
  "five_queries =
     [mk_query ''CEO'', mk_query ''CTO'', mk_query ''CFO'', mk_query ''COO'', mk_query ''VP'']"

definition default_config :: config where
  "default_config =
     \<lparr>user_query = ''find CTOs'', product_description = [],
      max_iterations = 3, min_results = 10, max_results_per_query = 25\<rparr>"


definition two_min_config :: config where
  "two_min_config =
     \<lparr>user_query = ''find CTOs'', product_description = [],
      max_iterations = 3, min_results = 2, max_results_per_query = 25\<rparr>"

text \<open>Five initial queries, no follow-up queries, every search succeeds with no contact.\<close>

definition barren_env :: env where
  "barren_env =
     \<lparr>messages_create = (\<lambda>log p. case p of
          GeneratePrompt _ _ \<Rightarrow> QueryList five_queries
        | _ \<Rightarrow> QueryList []),
      search_people = (\<lambda>log q n. Some [])\<rparr>"

text \<open>One initial query, one refined query after a miss, every search raises.\<close>

definition failing_env :: env where
  "failing_env =
     \<lparr>messages_create = (\<lambda>log p. case p of
          GeneratePrompt _ _ \<Rightarrow> QueryList [mk_query ''CTO'']
        | RefinePrompt _ _ _ _ \<Rightarrow> QueryList [mk_query ''Engineer'']
        | ExpandPrompt _ _ _ _ \<Rightarrow> QueryList []),
      search_people = (\<lambda>log q n. None)\<rparr>"


text \<open>Three initial queries; every search finds the same two people.\<close>

definition fruitful_env :: env where
  "fruitful_env =
     \<lparr>messages_create = (\<lambda>log p. case p of
          GeneratePrompt _ _ \<Rightarrow> QueryList [mk_query ''CTO'', mk_query ''CEO'', mk_query ''VP'']
        | _ \<Rightarrow> QueryList []),
      search_people = (\<lambda>log q n. Some [ann_work, locked_carl])\<rparr>"

section \<open>Properties of deduplication\<close>

lemma dedup_loop_acc: "dedup_loop s u xs = u @ dedup_loop s [] xs"
proof (induction xs arbitrary: s u)
  case Nil
  show ?case by simp
next
  case (Cons x xs)
  show ?case
    using Cons.IH [of "add_to_seen s x" "u @ [x]"] Cons.IH [of "add_to_seen s x" "[x]"]
      Cons.IH [of s u]
    by simp
qed

lemma dedup_loop_append:
  "dedup_loop s u (xs @ ys) = dedup_loop (seen_after s xs) (dedup_loop s u xs) ys"
  by (induction xs arbitrary: s u) simp_all

lemma is_duplicate_iff:
  "is_duplicate s c \<longleftrightarrow>
     email_ids c \<inter> seen_emails s \<noteq> {} \<or> linkedin_ids c \<inter> seen_linkedin s \<noteq> {}
       \<or> id_ids c \<inter> seen_ids s \<noteq> {}"
  by (cases "ignore_placeholder (c_email c)"; cases "c_linkedin_url c"; cases "c_id c")
     (auto simp: is_duplicate_def email_ids_def linkedin_ids_def id_ids_def usable_def)

lemma add_if_usable: "add_if v S = S \<union> usable v"
  by (cases v) (auto simp: usable_def)

lemma add_to_seen_fields:
  "seen_emails (add_to_seen s c) = seen_emails s \<union> email_ids c"
  "seen_linkedin (add_to_seen s c) = seen_linkedin s \<union> linkedin_ids c"
  "seen_ids (add_to_seen s c) = seen_ids s \<union> id_ids c"
  by (simp_all add: add_to_seen_def add_if_usable email_ids_def linkedin_ids_def id_ids_def)

lemma seen_after_fields:
  "seen_emails (seen_after s xs) = seen_emails s \<union> (\<Union>c \<in> set (dedup_loop s [] xs). email_ids c)"
  "seen_linkedin (seen_after s xs) = seen_linkedin s \<union> (\<Union>c \<in> set (dedup_loop s [] xs). linkedin_ids c)"
  "seen_ids (seen_after s xs) = seen_ids s \<union> (\<Union>c \<in> set (dedup_loop s [] xs). id_ids c)"
proof (induction xs arbitrary: s)
  case Nil
  {
    case 1 show ?case by simp
  next
    case 2 show ?case by simp
  next
    case 3 show ?case by simp
  }
next
  case (Cons x xs)
  {
    case 1 show ?case
      using Cons.IH(1) [of s] Cons.IH(1) [of "add_to_seen s x"]
        dedup_loop_acc [of "add_to_seen s x" "[x]" xs]
      by (auto simp: add_to_seen_fields)
  next
    case 2 show ?case
      using Cons.IH(2) [of s] Cons.IH(2) [of "add_to_seen s x"]
        dedup_loop_acc [of "add_to_seen s x" "[x]" xs]
      by (auto simp: add_to_seen_fields)
  next
    case 3 show ?case
      using Cons.IH(3) [of s] Cons.IH(3) [of "add_to_seen s x"]
        dedup_loop_acc [of "add_to_seen s x" "[x]" xs]
      by (auto simp: add_to_seen_fields)
  }
qed

lemma dedup_snoc:
  "deduplicate_contacts (pre @ [c]) =
     (if \<exists>k \<in> set (deduplicate_contacts pre). shares_identifier k c
      then deduplicate_contacts pre else deduplicate_contacts pre @ [c])"
proof -
  have "is_duplicate (seen_after empty_seen pre) c \<longleftrightarrow>
          (\<exists>k \<in> set (deduplicate_contacts pre). shares_identifier k c)"
    unfolding is_duplicate_iff seen_after_fields deduplicate_contacts_def
    by (auto simp: empty_seen_def shares_identifier_def shares_email_def
        shares_linkedin_def shares_id_def)
  then show ?thesis
    by (simp add: deduplicate_contacts_def dedup_loop_append)
qed

lemma dedup_loop_subseq: "subseq (dedup_loop s [] xs) xs"
proof (induction xs arbitrary: s)
  case Nil
  show ?case by simp
next
  case (Cons x xs)
  show ?case
    using Cons.IH [of s] Cons.IH [of "add_to_seen s x"]
      dedup_loop_acc [of "add_to_seen s x" "[x]" xs]
    by auto
qed

lemma dedup_set_subset: "set (deduplicate_contacts xs) \<subseteq> set xs"
  using list_emb_set [OF dedup_loop_subseq [of empty_seen xs]]
  by (auto simp: deduplicate_contacts_def)

lemma dedup_pairwise:
  "i < j \<Longrightarrow> j < length (deduplicate_contacts xs) \<Longrightarrow>
     \<not> shares_identifier (deduplicate_contacts xs ! i) (deduplicate_contacts xs ! j)"
proof (induction xs arbitrary: i j rule: rev_induct)
  case Nil
  then show ?case by (simp add: deduplicate_contacts_def)
next
  case (snoc c pre)
  show ?case
  proof (cases "\<exists>k \<in> set (deduplicate_contacts pre). shares_identifier k c")
    case True
    then have "deduplicate_contacts (pre @ [c]) = deduplicate_contacts pre"
      by (simp add: dedup_snoc)
    then show ?thesis using snoc by simp
  next
    case False
    then have eq: "deduplicate_contacts (pre @ [c]) = deduplicate_contacts pre @ [c]"
      by (simp add: dedup_snoc)
    show ?thesis
    proof (cases "j < length (deduplicate_contacts pre)")
      case True
      then show ?thesis using snoc.IH [of i j] snoc.prems(1) by (simp add: eq nth_append)
    next
      case False
      then have j: "j = length (deduplicate_contacts pre)" using snoc.prems(2) by (simp add: eq)
      have "deduplicate_contacts pre ! i \<in> set (deduplicate_contacts pre)"
        using snoc.prems(1) j by simp
      then show ?thesis using \<open>\<not> (\<exists>k \<in> set (deduplicate_contacts pre). shares_identifier k c)\<close>
          snoc.prems(1) j
        by (simp add: eq nth_append)
    qed
  qed
qed

lemma identity_key_shares:
  "identity_key a = Some k \<Longrightarrow> identity_key b = Some k \<Longrightarrow> shares_identifier a b"
  by (cases "ignore_placeholder (c_email a)"; cases "ignore_placeholder (c_email b)";
      cases "c_linkedin_url a"; cases "c_linkedin_url b"; cases "c_id a"; cases "c_id b")
     (auto simp: identity_key_def shares_identifier_def shares_email_def shares_linkedin_def
        shares_id_def email_ids_def linkedin_ids_def id_ids_def usable_def split: if_splits)

lemma no_identifier_not_duplicate: "no_identifier c \<Longrightarrow> \<not> is_duplicate s c"
  by (simp add: is_duplicate_iff no_identifier_def)

lemma no_identifier_add: "no_identifier c \<Longrightarrow> add_to_seen s c = s"
  by (simp add: add_to_seen_def add_if_usable no_identifier_def email_ids_def
      linkedin_ids_def id_ids_def)

lemma is_duplicate_mono:
  "is_duplicate s c \<Longrightarrow> seen_emails s \<subseteq> seen_emails t \<Longrightarrow>
     seen_linkedin s \<subseteq> seen_linkedin t \<Longrightarrow> seen_ids s \<subseteq> seen_ids t \<Longrightarrow> is_duplicate t c"
  unfolding is_duplicate_iff by blast

lemma is_duplicate_after_add: "\<not> no_identifier c \<Longrightarrow> is_duplicate (add_to_seen s c) c"
  by (auto simp: is_duplicate_iff add_to_seen_fields no_identifier_def)

lemma is_duplicate_seen_after: "is_duplicate s c \<Longrightarrow> is_duplicate (seen_after s xs) c"
  by (rule is_duplicate_mono) (auto simp: seen_after_fields)

lemma member_is_duplicate_after:
  "c \<in> set xs \<Longrightarrow> \<not> no_identifier c \<Longrightarrow> is_duplicate (seen_after s xs) c"
proof (induction xs arbitrary: s)
  case Nil
  then show ?case by simp
next
  case (Cons x xs)
  show ?case
  proof (cases "c = x")
    case True
    then show ?thesis
      using Cons.prems(2) is_duplicate_after_add [of c s]
        is_duplicate_seen_after [of s c xs] is_duplicate_seen_after [of "add_to_seen s c" c xs]
      by auto
  next
    case False
    then have "c \<in> set xs" using Cons.prems(1) by simp
    then show ?thesis using Cons.IH Cons.prems(2) by simp
  qed
qed

lemma dedup_loop_all_seen:
  "(\<And>c. c \<in> set ys \<Longrightarrow> \<not> no_identifier c \<Longrightarrow> is_duplicate s c) \<Longrightarrow>
     dedup_loop s [] ys = filter no_identifier ys"
proof (induction ys)
  case Nil
  show ?case by simp
next
  case (Cons y ys)
  have ih: "dedup_loop s [] ys = filter no_identifier ys"
    using Cons by simp
  show ?case
  proof (cases "no_identifier y")
    case True
    then show ?thesis
      using ih no_identifier_not_duplicate [of y s] no_identifier_add [of y s]
        dedup_loop_acc [of s "[y]" ys]
      by simp
  next
    case False
    then have "is_duplicate s y" using Cons.prems by simp
    then show ?thesis using ih False by simp
  qed
qed

lemma placeholder_no_email: "has_placeholder_email c \<Longrightarrow> email_ids c = {}"
  by (simp add: has_placeholder_email_def email_ids_def ignore_placeholder_def usable_def)

section \<open>Properties of the loop\<close>

lemma round_body_counters:
  "iteration (round_body e cfg st q) = iteration st + 1"
  "pos (round_body e cfg st q) = pos st + 1"
  by (simp_all add: round_body_def Let_def split: prod.splits)

lemma round_body_queue_fixed:
  "\<not> int (iteration st + 1) < max_iterations cfg \<Longrightarrow>
     search_queries (round_body e cfg st q) = search_queries st"
  by (simp add: round_body_def Let_def split: prod.splits)

lemma drop_eq_ConsD: "drop n xs = y # ys \<Longrightarrow> n < length xs \<and> xs ! n = y"
proof -
  assume d: "drop n xs = y # ys"
  have n: "n < length xs"
  proof (rule ccontr)
    assume "\<not> n < length xs"
    then have "drop n xs = []" by simp
    with d show False by simp
  qed
  have "hd (drop n xs) = xs ! n" using n by (rule hd_drop_conv_nth)
  with d n show ?thesis by simp
qed

lemma loop_step_SomeD:
  assumes "loop_step e cfg st = Some st'"
  shows "pos st < length (search_queries st)"
    and "\<not> min_results cfg \<le> int (length (all_contacts st))"
    and "st' = round_body e cfg st (search_queries st ! pos st)"
  using assms
  by (auto simp: loop_step_def split: list.splits if_splits dest: drop_eq_ConsD)

lemma run_loop_None: "loop_step e cfg st = None \<Longrightarrow> run_loop e cfg st = st"
  by (subst run_loop.simps) simp

lemma run_loop_Some: "loop_step e cfg st = Some st' \<Longrightarrow> run_loop e cfg st = run_loop e cfg st'"
  by (subst run_loop.simps) simp

lemma run_loop_invariant:
  assumes "P st" and "\<And>s s'. P s \<Longrightarrow> loop_step e cfg s = Some s' \<Longrightarrow> P s'"
  shows "P (run_loop e cfg st)"
  using assms
proof (induction e cfg st rule: run_loop.induct)
  case (1 e cfg st)
  show ?case
  proof (cases "loop_step e cfg st")
    case None
    then show ?thesis using "1.prems"(1) by (simp add: run_loop_None)
  next
    case (Some st')
    have "P st'" using "1.prems"(2) [OF "1.prems"(1) Some] .
    then have "P (run_loop e cfg st')" using "1.IH" [OF Some] "1.prems"(2) by blast
    then show ?thesis using Some by (simp add: run_loop_Some)
  qed
qed

lemma run_loop_stops: "loop_step e cfg (run_loop e cfg st) = None"
proof (induction e cfg st rule: run_loop.induct)
  case (1 e cfg st)
  show ?case
  proof (cases "loop_step e cfg st")
    case None
    then show ?thesis by (simp add: run_loop_None)
  next
    case (Some st')
    then show ?thesis using "1.IH" [OF Some] by (simp add: run_loop_Some)
  qed
qed

lemma round_body_history:
  "search_history (round_body e cfg st q) = search_history st @
     [\<lparr>r_iteration = iteration st + 1, r_query_params = q,
       r_results_count = length (fst (fst (execute_apollo_search e (calls st) q (max_results_per_query cfg)))),
       r_companies_found = length (snd (fst (execute_apollo_search e (calls st) q (max_results_per_query cfg))))\<rparr>]"
  by (simp add: round_body_def Let_def split: prod.splits)

lemma round_body_contacts:
  "all_contacts (round_body e cfg st q) = all_contacts st @
     fst (fst (execute_apollo_search e (calls st) q (max_results_per_query cfg)))"
  by (simp add: round_body_def Let_def split: prod.splits)

lemma round_body_queue_prefix:
  "prefix (search_queries st) (search_queries (round_body e cfg st q))"
  by (simp add: round_body_def Let_def split: prod.splits)

lemma loop_inv_step:
  assumes "loop_inv st" and "loop_step e cfg st = Some st'"
  shows "loop_inv st'"
proof -
  let ?q = "search_queries st ! pos st"
  have p: "pos st < length (search_queries st)" and st': "st' = round_body e cfg st ?q"
    using loop_step_SomeD [OF assms(2)] by simp_all
  obtain ext where ext: "search_queries st' = search_queries st @ ext"
    using round_body_queue_prefix [of st e cfg ?q] st' by (auto simp: prefix_def)
  have "take (Suc (pos st)) (search_queries st @ ext) = take (pos st) (search_queries st) @ [?q]"
    using p by (simp add: take_Suc_conv_app_nth)
  then show ?thesis
    using assms(1) ext p
    by (simp add: loop_inv_def st' round_body_counters round_body_history round_body_contacts)
qed

lemma loop_inv_init: "loop_inv (init_state queries log)"
  by (simp add: loop_inv_def init_state_def)

lemma loop_inv_run_loop: "loop_inv st \<Longrightarrow> loop_inv (run_loop e cfg st)"
  by (rule run_loop_invariant [where P = loop_inv]) (auto intro: loop_inv_step)

lemma after_rounds_run_loop:
  "after_rounds e cfg k st = Some st' \<Longrightarrow> run_loop e cfg st = run_loop e cfg st'"
  by (induction k arbitrary: st) (auto simp: run_loop_Some split: option.splits)

lemma after_rounds_inv:
  "after_rounds e cfg k st = Some st' \<Longrightarrow> loop_inv st \<Longrightarrow>
     loop_inv st' \<and> iteration st' = iteration st + k"
proof (induction k arbitrary: st)
  case 0
  then show ?case by simp
next
  case (Suc k)
  from Suc.prems(1) obtain s1 where s1: "loop_step e cfg st = Some s1" "after_rounds e cfg k s1 = Some st'"
    by (auto split: option.splits)
  have "iteration s1 = iteration st + 1"
    using loop_step_SomeD(3) [OF s1(1)] by (simp add: round_body_counters)
  then show ?case
    using Suc.IH [OF s1(2) loop_inv_step [OF Suc.prems(2) s1(1)]] by simp
qed

lemma dedup_length_le: "length (deduplicate_contacts xs) \<le> length xs"
  using dedup_loop_subseq [of empty_seen xs]
  by (simp add: deduplicate_contacts_def list_emb_length)

lemma enough_contacts_stops:
  "min_results cfg \<le> int (length (all_contacts st)) \<Longrightarrow> loop_step e cfg st = None"
  by (simp add: loop_step_def split: list.splits)

lemma round_body_no_followup:
  assumes "\<forall>log p. is_followup p \<longrightarrow> queries_of (messages_create e log p) = []"
  shows "search_queries (round_body e cfg st q) = search_queries st"
proof -
  have x: "fst (learn_and_expand e log uq pd cs h) = []" for log uq pd cs h
    using assms [rule_format, of "ExpandPrompt uq pd (take 5 cs) h" log]
    by (cases "messages_create e log (ExpandPrompt uq pd (take 5 cs) h)")
       (simp_all add: learn_and_expand_def Let_def)
  have r: "fst (refine_failed_search e log fq h uq pd) = []" for log fq h uq pd
    using assms [rule_format, of "RefinePrompt uq pd fq h" log]
    by (cases "messages_create e log (RefinePrompt uq pd fq h)")
       (simp_all add: refine_failed_search_def Let_def)
  show ?thesis
    unfolding round_body_def Let_def
    by (auto split: prod.splits dest: arg_cong [where f = fst] simp: x r)
qed

lemma queue_fixed_run_loop:
  assumes "\<forall>log p. is_followup p \<longrightarrow> queries_of (messages_create e log p) = []"
  shows "search_queries (run_loop e cfg st) = search_queries st"
proof (rule run_loop_invariant [where P = "\<lambda>s. search_queries s = search_queries st"])
  show "search_queries st = search_queries st" by simp
next
  fix s s'
  assume "search_queries s = search_queries st" and "loop_step e cfg s = Some s'"
  then show "search_queries s' = search_queries st"
    using loop_step_SomeD(3) [of e cfg s s'] round_body_no_followup [OF assms] by simp
qed

lemma run_loop_exhausted:
  assumes "int (length (all_contacts (run_loop e cfg st))) < min_results cfg"
  shows "length (search_queries (run_loop e cfg st)) \<le> pos (run_loop e cfg st)"
proof -
  have "loop_step e cfg (run_loop e cfg st) = None" by (rule run_loop_stops)
  then show ?thesis using assms
    by (auto simp: loop_step_def split: list.splits if_splits)
qed

lemma run_agentic_search_Inr:
  assumes "fst (generate_search_queries e [] (user_query cfg) (product_description cfg)) = Inr seed"
  shows "fst (run_agentic_search e cfg) =
    Inr \<lparr>contacts = deduplicate_contacts (all_contacts (run_loop e cfg (init_state seed (snd (generate_search_queries e [] (user_query cfg) (product_description cfg)))))),
         companies = all_companies (run_loop e cfg (init_state seed (snd (generate_search_queries e [] (user_query cfg) (product_description cfg))))),
         result_history = search_history (run_loop e cfg (init_state seed (snd (generate_search_queries e [] (user_query cfg) (product_description cfg))))),
         iterations = iteration (run_loop e cfg (init_state seed (snd (generate_search_queries e [] (user_query cfg) (product_description cfg))))),
         result_stats = \<lparr>total_contacts = length (deduplicate_contacts (all_contacts (run_loop e cfg (init_state seed (snd (generate_search_queries e [] (user_query cfg) (product_description cfg))))))),
            total_companies = card (all_companies (run_loop e cfg (init_state seed (snd (generate_search_queries e [] (user_query cfg) (product_description cfg)))))),
            queries_executed = length (search_history (run_loop e cfg (init_state seed (snd (generate_search_queries e [] (user_query cfg) (product_description cfg))))))\<rparr>\<rparr>"
  using assms
  by (cases "generate_search_queries e [] (user_query cfg) (product_description cfg)")
     (simp add: run_agentic_search_def Let_def)

text \<open>Evaluation of deduplication at concrete lists.\<close>

lemmas dedup_eval =
  deduplicate_contacts_def empty_seen_def is_duplicate_def add_to_seen_def
  ignore_placeholder_def placeholder_emails_def Let_def

lemmas contact_eval =
  ann_work_def ann_private_def ann_mail_only_def bob_anonymous_def locked_carl_def
  locked_dora_def

lemmas ids_eval =
  shares_identifier_def shares_email_def shares_linkedin_def shares_id_def
  email_ids_def linkedin_ids_def id_ids_def usable_def identity_key_def
  has_placeholder_email_def ignore_placeholder_def placeholder_emails_def

section \<open>The claims about deduplication\<close>

text \<open>
  C5, as the specification states it, fails: a record whose identity key (its
  email) is fresh is dropped all the same when its profile URL has been seen.
  The two records below have different emails and the same profile URL; the
  second is dropped.
\<close>

theorem fresh_key_dropped_counterexample:
  "identity_key ann_work = Some (EmailKey ''ann@acme.com'')
   \<and> identity_key ann_private = Some (EmailKey ''ann@gmail.com'')
   \<and> deduplicate_contacts [ann_work, ann_private] = [ann_work]"
  by (simp add: dedup_eval contact_eval identity_key_def)

text \<open>
  C5, amended: deduplication matches on each identifier by itself. A record is
  dropped exactly when its usable email, its profile URL or its id is that of
  a record kept before it, and is appended unchanged otherwise. So a record
  whose identity key is that of a kept record is dropped, and no two kept
  records have the same identity key.
\<close>

theorem dedup_matches_any_identifier:
  "deduplicate_contacts (pre @ [c]) =
      (if \<exists>k \<in> set (deduplicate_contacts pre). shares_identifier k c
       then deduplicate_contacts pre else deduplicate_contacts pre @ [c])
   \<and> ((\<exists>k \<in> set (deduplicate_contacts pre). identity_key k = Some key)
          \<and> identity_key c = Some key
        \<longrightarrow> deduplicate_contacts (pre @ [c]) = deduplicate_contacts pre)
   \<and> (i < j \<and> j < length (deduplicate_contacts xs)
          \<and> identity_key (deduplicate_contacts xs ! i) = Some key
        \<longrightarrow> identity_key (deduplicate_contacts xs ! j) \<noteq> Some key)"
proof (intro conjI impI)
  show "deduplicate_contacts (pre @ [c]) =
      (if \<exists>k \<in> set (deduplicate_contacts pre). shares_identifier k c
       then deduplicate_contacts pre else deduplicate_contacts pre @ [c])"
    by (rule dedup_snoc)
next
  assume "(\<exists>k \<in> set (deduplicate_contacts pre). identity_key k = Some key)
     \<and> identity_key c = Some key"
  then have "\<exists>k \<in> set (deduplicate_contacts pre). shares_identifier k c"
    using identity_key_shares by blast
  then show "deduplicate_contacts (pre @ [c]) = deduplicate_contacts pre"
    by (simp add: dedup_snoc)
next
  assume a: "i < j \<and> j < length (deduplicate_contacts xs)
     \<and> identity_key (deduplicate_contacts xs ! i) = Some key"
  then have "\<not> shares_identifier (deduplicate_contacts xs ! i) (deduplicate_contacts xs ! j)"
    using dedup_pairwise by blast
  then show "identity_key (deduplicate_contacts xs ! j) \<noteq> Some key"
    using a identity_key_shares by blast
qed

theorem dedup_matches_any_identifier_witness:
  "(\<exists>k \<in> set (deduplicate_contacts [ann_work, ann_mail_only]).
        identity_key k = Some (EmailKey ''ann@gmail.com''))
   \<and> identity_key ann_private = Some (EmailKey ''ann@gmail.com'')
   \<and> deduplicate_contacts ([ann_work, ann_mail_only] @ [ann_private])
        = [ann_work, ann_mail_only]
   \<and> (0::nat) < 1 \<and> 1 < length (deduplicate_contacts [ann_work, ann_mail_only])
   \<and> identity_key (deduplicate_contacts [ann_work, ann_mail_only] ! 0)
        = Some (EmailKey ''ann@acme.com'')
   \<and> identity_key (deduplicate_contacts [ann_work, ann_mail_only] ! 1)
        \<noteq> Some (EmailKey ''ann@acme.com'')"
proof -
  have d: "deduplicate_contacts [ann_work, ann_mail_only] = [ann_work, ann_mail_only]"
    by (simp add: dedup_eval contact_eval)
  have h1: "(\<exists>k \<in> set (deduplicate_contacts [ann_work, ann_mail_only]).
        identity_key k = Some (EmailKey ''ann@gmail.com''))
      \<and> identity_key ann_private = Some (EmailKey ''ann@gmail.com'')"
    unfolding d by (simp add: ids_eval contact_eval)
  have s: "shares_identifier ann_mail_only ann_private"
    by (simp add: ids_eval contact_eval)
  have h2: "(0::nat) < 1 \<and> 1 < length (deduplicate_contacts [ann_work, ann_mail_only])
      \<and> identity_key (deduplicate_contacts [ann_work, ann_mail_only] ! 0)
           = Some (EmailKey ''ann@acme.com'')"
    unfolding d by (simp add: ids_eval contact_eval)
  show ?thesis
    using dedup_matches_any_identifier [of "[ann_work, ann_mail_only]" ann_private
        "EmailKey ''ann@gmail.com''" 0 0 "[]"]
      dedup_matches_any_identifier [of "[]" ann_work
        "EmailKey ''ann@acme.com''" 0 1 "[ann_work, ann_mail_only]"]
      h1 h2 d s
    by simp
qed

text \<open>
  C6, as the specification states it, fails for a record that has no usable
  identifier: such a record is never a duplicate, so the list taken twice
  keeps it twice.
\<close>

theorem anonymous_not_idempotent_counterexample:
  "deduplicate_contacts [bob_anonymous] = [bob_anonymous]
   \<and> deduplicate_contacts ([bob_anonymous] @ [bob_anonymous]) = [bob_anonymous, bob_anonymous]"
  by (simp add: dedup_eval contact_eval)

text \<open>
  C6, amended: running deduplication over a list followed by itself keeps,
  from the second copy, the records that have no usable identifier and no
  others; for a list whose records all have an identifier the result is that
  of the list taken once.
\<close>

theorem dedup_twice:
  "deduplicate_contacts (xs @ xs) = deduplicate_contacts xs @ filter no_identifier xs"
proof -
  have "dedup_loop (seen_after empty_seen xs) [] xs = filter no_identifier xs"
    by (rule dedup_loop_all_seen) (rule member_is_duplicate_after)
  then show ?thesis
    using dedup_loop_acc [of "seen_after empty_seen xs" "dedup_loop empty_seen [] xs" xs]
    by (simp add: deduplicate_contacts_def dedup_loop_append)
qed

theorem dedup_twice_witness:
  "deduplicate_contacts ([ann_work, bob_anonymous, ann_private] @ [ann_work, bob_anonymous, ann_private])
     = [ann_work, bob_anonymous, bob_anonymous]
   \<and> deduplicate_contacts ([ann_work, locked_carl] @ [ann_work, locked_carl])
     = deduplicate_contacts [ann_work, locked_carl]"
proof -
  have d: "deduplicate_contacts [ann_work, bob_anonymous, ann_private] = [ann_work, bob_anonymous]"
    by (simp add: dedup_eval contact_eval)
  have f: "filter no_identifier [ann_work, bob_anonymous, ann_private] = [bob_anonymous]"
    by (simp add: no_identifier_def ids_eval contact_eval)
  have g: "filter no_identifier [ann_work, locked_carl] = []"
    by (simp add: no_identifier_def ids_eval contact_eval)
  show ?thesis
    using dedup_twice [of "[ann_work, bob_anonymous, ann_private]"]
      dedup_twice [of "[ann_work, locked_carl]"] d f g
    by simp
qed

text \<open>
  C7: a record whose email is a placeholder is kept whenever no record before
  it in the list has its profile URL or its id, whatever the emails of those
  records are, placeholders included. In particular two records that share a
  placeholder email and neither a profile URL nor an id are both kept.
\<close>

theorem placeholder_survives:
  assumes "has_placeholder_email c"
    and "\<forall>p \<in> set pre. \<not> shares_linkedin p c \<and> \<not> shares_id p c"
  shows "deduplicate_contacts (pre @ [c]) = deduplicate_contacts pre @ [c]"
proof -
  have "\<not> shares_identifier k c" if "k \<in> set (deduplicate_contacts pre)" for k
  proof -
    have "k \<in> set pre" using that dedup_set_subset by blast
    then show ?thesis
      using assms placeholder_no_email [of c]
      by (simp add: shares_identifier_def shares_email_def)
  qed
  then show ?thesis by (simp add: dedup_snoc)
qed

theorem placeholder_survives_witness:
  "has_placeholder_email locked_carl \<and> has_placeholder_email locked_dora
   \<and> \<not> shares_linkedin locked_carl locked_dora \<and> \<not> shares_id locked_carl locked_dora
   \<and> c_email locked_carl = c_email locked_dora
   \<and> deduplicate_contacts ([locked_carl] @ [locked_dora]) = [locked_carl, locked_dora]"
proof -
  have h1: "has_placeholder_email locked_dora"
    by (simp add: ids_eval contact_eval)
  have h2: "\<forall>p \<in> set [locked_carl]. \<not> shares_linkedin p locked_dora \<and> \<not> shares_id p locked_dora"
    by (simp add: ids_eval contact_eval)
  have d: "deduplicate_contacts [locked_carl] = [locked_carl]"
    by (simp add: dedup_eval contact_eval)
  have e: "c_email locked_carl = c_email locked_dora"
    by (simp add: contact_eval)
  have h0: "has_placeholder_email locked_carl"
    by (simp add: ids_eval contact_eval)
  show ?thesis
    using placeholder_survives [OF h1 h2] h0 h1 h2 d e by simp
qed

text \<open>
  C10, as stated, fails: a kept record need not be the first record of the
  input with its identity. In the list below the second record is dropped for
  its profile URL, so its email is not remembered, and the third record, which
  has that same email, is kept.
\<close>

theorem not_first_occurrence_counterexample:
  "deduplicate_contacts [ann_work, ann_private, ann_mail_only] = [ann_work, ann_mail_only]
   \<and> identity_key ann_private = Some (EmailKey ''ann@gmail.com'')
   \<and> identity_key ann_mail_only = Some (EmailKey ''ann@gmail.com'')"
  by (simp add: dedup_eval contact_eval identity_key_def)

text \<open>
  C10, amended: the result is a subsequence of the input, so every kept record
  is an input record, unchanged and in the input's order; a kept record shares
  no usable email, profile URL or id with a record kept before it; and a
  record that shares no identifier with any record before it in the input is
  kept.
\<close>

theorem dedup_subsequence:
  "subseq (deduplicate_contacts xs) xs
   \<and> (i < j \<and> j < length (deduplicate_contacts xs)
        \<longrightarrow> \<not> shares_identifier (deduplicate_contacts xs ! i) (deduplicate_contacts xs ! j))
   \<and> ((\<forall>p \<in> set pre. \<not> shares_identifier p c)
        \<longrightarrow> deduplicate_contacts (pre @ [c]) = deduplicate_contacts pre @ [c])"
proof (intro conjI impI)
  show "subseq (deduplicate_contacts xs) xs"
    unfolding deduplicate_contacts_def by (rule dedup_loop_subseq)
next
  assume "i < j \<and> j < length (deduplicate_contacts xs)"
  then show "\<not> shares_identifier (deduplicate_contacts xs ! i) (deduplicate_contacts xs ! j)"
    using dedup_pairwise by blast
next
  assume "\<forall>p \<in> set pre. \<not> shares_identifier p c"
  then have "\<not> (\<exists>k \<in> set (deduplicate_contacts pre). shares_identifier k c)"
    using dedup_set_subset [of pre] by blast
  then show "deduplicate_contacts (pre @ [c]) = deduplicate_contacts pre @ [c]"
    by (simp add: dedup_snoc)
qed

theorem dedup_subsequence_witness:
  "subseq [ann_work, ann_mail_only] [ann_work, ann_private, ann_mail_only]
   \<and> (0::nat) < 1
   \<and> 1 < length (deduplicate_contacts [ann_work, ann_private, ann_mail_only])
   \<and> \<not> shares_identifier ann_work ann_mail_only
   \<and> deduplicate_contacts ([ann_work] @ [ann_mail_only]) = [ann_work, ann_mail_only]"
proof -
  have d: "deduplicate_contacts [ann_work, ann_private, ann_mail_only] = [ann_work, ann_mail_only]"
    by (simp add: dedup_eval contact_eval)
  have d1: "deduplicate_contacts [ann_work] = [ann_work]"
    by (simp add: dedup_eval contact_eval)
  have h: "\<forall>p \<in> set [ann_work]. \<not> shares_identifier p ann_mail_only"
    by (simp add: ids_eval contact_eval)
  show ?thesis
    using dedup_subsequence [of "[ann_work, ann_private, ann_mail_only]" 0 1 "[ann_work]" ann_mail_only]
      d d1 h
    by simp
qed

section \<open>The claims about the run\<close>

text \<open>
  C1 fails on the code: \<^verbatim>\<open>max_iterations\<close> only gates the follow-up queries,
  the loop itself walks the whole list. With the default of three iterations,
  five initial queries and searches that find nobody, five rounds are run and
  five history entries returned.
\<close>

theorem rounds_exceed_max_iterations:
  "max_iterations default_config = 3
   \<and> \<not> isl (fst (run_agentic_search barren_env default_config))
   \<and> iterations (projr (fst (run_agentic_search barren_env default_config))) = 5
   \<and> length (result_history (projr (fst (run_agentic_search barren_env default_config)))) = 5"
  by code_simp

text \<open>
  C2, as the specification states it, fails: when the provider raises, the
  executor returns what it returns for a search without results, and the loop
  then asks for refined queries and appends them to the list.
\<close>

theorem provider_error_swallowed_counterexample:
  "search_people failing_env [] (mk_query ''CTO'') 25 = None
   \<and> search_people barren_env [] (mk_query ''CTO'') 25 = Some []
   \<and> execute_apollo_search failing_env [] (mk_query ''CTO'') 25
       = execute_apollo_search barren_env [] (mk_query ''CTO'') 25
   \<and> search_queries (round_body failing_env default_config
         (init_state [mk_query ''CTO''] []) (mk_query ''CTO''))
       = [mk_query ''CTO'', mk_query ''Engineer'']"
  by code_simp

text \<open>
  C2, amended: when the provider call raises, the executor returns no contacts
  and no companies; the round is the round of a provider that succeeds with
  no contact: the history entry counts zero results and zero companies and
  holds no error, and, while the counter is below \<^verbatim>\<open>max_iterations\<close>, the
  refined queries of the planner are appended to the list.
\<close>

theorem provider_failure_is_zero_result:
  assumes "search_people e (calls st) q (max_results_per_query cfg) = None"
  shows "fst (execute_apollo_search e (calls st) q (max_results_per_query cfg)) = ([], [])
     \<and> round_body e cfg st q = round_body (e\<lparr>search_people := \<lambda>log q n. Some []\<rparr>) cfg st q
     \<and> search_history (round_body e cfg st q) = search_history st @
          [\<lparr>r_iteration = iteration st + 1, r_query_params = q,
            r_results_count = 0, r_companies_found = 0\<rparr>]
     \<and> search_queries (round_body e cfg st q) = search_queries st @
          (if int (iteration st + 1) < max_iterations cfg
           then fst (refine_failed_search e (calls st @ [ApolloCall q (max_results_per_query cfg)]) q
                  (search_history st @
                     [\<lparr>r_iteration = iteration st + 1, r_query_params = q,
                       r_results_count = 0, r_companies_found = 0\<rparr>])
                  (user_query cfg) (product_description cfg))
           else [])"
proof -
  have x: "execute_apollo_search e (calls st) q (max_results_per_query cfg)
      = (([], []), calls st @ [ApolloCall q (max_results_per_query cfg)])"
    using assms by (simp add: execute_apollo_search_def Let_def)
  have y: "execute_apollo_search (e\<lparr>search_people := \<lambda>log q n. Some []\<rparr>) (calls st) q (max_results_per_query cfg)
      = (([], []), calls st @ [ApolloCall q (max_results_per_query cfg)])"
    by (simp add: execute_apollo_search_def Let_def companies_of_def)
  have z: "refine_failed_search (e\<lparr>search_people := f\<rparr>) log fq h uq pd
      = refine_failed_search e log fq h uq pd" for f log fq h uq pd
    by (simp add: refine_failed_search_def)
  show ?thesis
    by (simp add: round_body_def x y z Let_def split: prod.splits)
qed

theorem provider_failure_is_zero_result_witness:
  "search_people failing_env (calls (init_state [mk_query ''CTO''] [])) (mk_query ''CTO'')
       (max_results_per_query default_config) = None
   \<and> round_body failing_env default_config (init_state [mk_query ''CTO''] []) (mk_query ''CTO'')
     = round_body (failing_env\<lparr>search_people := \<lambda>log q n. Some []\<rparr>) default_config
         (init_state [mk_query ''CTO''] []) (mk_query ''CTO'')"
proof -
  have h: "search_people failing_env (calls (init_state [mk_query ''CTO''] [])) (mk_query ''CTO'')
       (max_results_per_query default_config) = None"
    by (simp add: failing_env_def)
  show ?thesis
    using provider_failure_is_zero_result [OF h] h by simp
qed




text \<open>
  C4: if the run makes \<open>k\<close> rounds and the deduplicated contacts collected by
  then number at least \<^verbatim>\<open>min_results\<close>, the state after round \<open>k\<close> is the
  final state: no further round is run, and the returned history is the
  history after round \<open>k\<close>, with \<open>k\<close> entries.
\<close>

theorem convergence_stops_run:
  assumes "generate_search_queries e [] (user_query cfg) (product_description cfg)
             = (Inr queries, log)"
    and "after_rounds e cfg k (init_state queries log) = Some st"
    and "min_results cfg \<le> int (length (deduplicate_contacts (all_contacts st)))"
  shows "run_loop e cfg (init_state queries log) = st
     \<and> (\<exists>r. fst (run_agentic_search e cfg) = Inr r
            \<and> result_history r = search_history st
            \<and> length (result_history r) = k \<and> iterations r = k)"
proof -
  have "min_results cfg \<le> int (length (all_contacts st))"
    using assms(3) dedup_length_le [of "all_contacts st"] by linarith
  then have "run_loop e cfg st = st"
    by (simp add: enough_contacts_stops run_loop_None)
  then have fin: "run_loop e cfg (init_state queries log) = st"
    using after_rounds_run_loop [OF assms(2)] by simp
  have "loop_inv st \<and> iteration st = iteration (init_state queries log) + k"
    using after_rounds_inv [OF assms(2) loop_inv_init] .
  then have len: "length (search_history st) = k" "iteration st = k"
    by (simp_all add: loop_inv_def init_state_def)
  show ?thesis
    using fin len by (simp add: run_agentic_search_def assms(1) Let_def)
qed

theorem convergence_stops_run_witness:
  "generate_search_queries fruitful_env [] (user_query two_min_config)
       (product_description two_min_config)
     = (Inr [mk_query ''CTO'', mk_query ''CEO'', mk_query ''VP''],
        [ClaudeCall (GeneratePrompt ''find CTOs'' [])])
   \<and> after_rounds fruitful_env two_min_config 1
        (init_state [mk_query ''CTO'', mk_query ''CEO'', mk_query ''VP'']
           [ClaudeCall (GeneratePrompt ''find CTOs'' [])])
     = Some (run_loop fruitful_env two_min_config
        (init_state [mk_query ''CTO'', mk_query ''CEO'', mk_query ''VP'']
           [ClaudeCall (GeneratePrompt ''find CTOs'' [])]))
   \<and> min_results two_min_config \<le> int (length (deduplicate_contacts (all_contacts
        (run_loop fruitful_env two_min_config
           (init_state [mk_query ''CTO'', mk_query ''CEO'', mk_query ''VP'']
              [ClaudeCall (GeneratePrompt ''find CTOs'' [])])))))
   \<and> (\<exists>r. fst (run_agentic_search fruitful_env two_min_config) = Inr r
          \<and> length (result_history r) = 1 \<and> iterations r = 1)"
proof -
  have h1: "generate_search_queries fruitful_env [] (user_query two_min_config)
       (product_description two_min_config)
     = (Inr [mk_query ''CTO'', mk_query ''CEO'', mk_query ''VP''],
        [ClaudeCall (GeneratePrompt ''find CTOs'' [])])"
    by (simp add: generate_search_queries_def fruitful_env_def two_min_config_def Let_def)
  have h2: "after_rounds fruitful_env two_min_config 1
        (init_state [mk_query ''CTO'', mk_query ''CEO'', mk_query ''VP'']
           [ClaudeCall (GeneratePrompt ''find CTOs'' [])])
     = Some (run_loop fruitful_env two_min_config
        (init_state [mk_query ''CTO'', mk_query ''CEO'', mk_query ''VP'']
           [ClaudeCall (GeneratePrompt ''find CTOs'' [])]))"
    by code_simp
  have h3: "min_results two_min_config \<le> int (length (deduplicate_contacts (all_contacts
        (run_loop fruitful_env two_min_config
           (init_state [mk_query ''CTO'', mk_query ''CEO'', mk_query ''VP'']
              [ClaudeCall (GeneratePrompt ''find CTOs'' [])])))))"
    by code_simp
  have "\<exists>r. fst (run_agentic_search fruitful_env two_min_config) = Inr r
          \<and> length (result_history r) = 1 \<and> iterations r = 1"
    using convergence_stops_run [OF h1 h2 h3] by blast
  then show ?thesis
    using h1 h2 h3 by blast
qed

text \<open>
  C8: when the planner produces no expansion and no refinement query, the
  queries of the returned history are the initial queries in their order, up
  to the number of rounds run; and all of them when the run did not stop for
  having collected \<^verbatim>\<open>min_results\<close> contacts. This holds whether or not the
  searches succeed.
\<close>

theorem fifo_seed_order:
  assumes "fst (generate_search_queries e [] (user_query cfg) (product_description cfg)) = Inr seed"
    and "\<forall>log p. is_followup p \<longrightarrow> queries_of (messages_create e log p) = []"
  shows "\<exists>r. fst (run_agentic_search e cfg) = Inr r
           \<and> map r_query_params (result_history r) = take (iterations r) seed
           \<and> (int (sum_list (map r_results_count (result_history r))) < min_results cfg
                \<longrightarrow> map r_query_params (result_history r) = seed)"
proof -
  define st where "st = run_loop e cfg (init_state seed
     (snd (generate_search_queries e [] (user_query cfg) (product_description cfg))))"
  have inv: "loop_inv st"
    unfolding st_def by (rule loop_inv_run_loop) (rule loop_inv_init)
  have q: "search_queries st = seed"
    unfolding st_def using queue_fixed_run_loop [OF assms(2)] by (simp add: init_state_def)
  have a: "map r_query_params (search_history st) = take (iteration st) seed"
    using inv q by (simp add: loop_inv_def)
  have b: "map r_query_params (search_history st) = seed"
    if "int (sum_list (map r_results_count (search_history st))) < min_results cfg"
  proof -
    have "int (length (all_contacts st)) < min_results cfg"
      using that inv by (simp add: loop_inv_def)
    then have "length (search_queries st) \<le> pos st"
      unfolding st_def by (rule run_loop_exhausted)
    then show ?thesis using inv q by (simp add: loop_inv_def)
  qed
  show ?thesis
    using run_agentic_search_Inr [OF assms(1)] a b unfolding st_def by simp
qed

theorem fifo_seed_order_witness:
  "fst (generate_search_queries barren_env [] (user_query default_config)
          (product_description default_config)) = Inr five_queries
   \<and> (\<forall>log uq pd cs h.
          queries_of (messages_create barren_env log (ExpandPrompt uq pd cs h)) = [])
   \<and> (\<forall>log uq pd q h.
          queries_of (messages_create barren_env log (RefinePrompt uq pd q h)) = [])
   \<and> (\<exists>r. fst (run_agentic_search barren_env default_config) = Inr r
          \<and> map r_query_params (result_history r) = five_queries)"
proof -
  have h1: "fst (generate_search_queries barren_env [] (user_query default_config)
          (product_description default_config)) = Inr five_queries"
    by (simp add: generate_search_queries_def barren_env_def Let_def)
  have h2: "\<forall>log p. is_followup p \<longrightarrow> queries_of (messages_create barren_env log p) = []"
  proof (intro allI impI)
    fix log p
    assume "is_followup p"
    then show "queries_of (messages_create barren_env log p) = []"
      by (cases p) (simp_all add: barren_env_def)
  qed
  have h3: "int (sum_list (map r_results_count
        (result_history (projr (fst (run_agentic_search barren_env default_config))))))
      < min_results default_config"
    by code_simp
  have x: "\<forall>log uq pd cs h.
          queries_of (messages_create barren_env log (ExpandPrompt uq pd cs h)) = []"
    by (simp add: barren_env_def)
  have r: "\<forall>log uq pd q h.
          queries_of (messages_create barren_env log (RefinePrompt uq pd q h)) = []"
    by (simp add: barren_env_def)
  have "\<exists>r. fst (run_agentic_search barren_env default_config) = Inr r
          \<and> map r_query_params (result_history r) = five_queries"
    using fifo_seed_order [OF h1 h2] h3 by fastforce
  then show ?thesis
    using h1 x r by blast
qed




end
